theory Spec2Isabelle
  imports Main
begin

section \<open>The pattern engine behind \<open>find_matches\<close>\<close>

text \<open>
  \<open>worm.py\<close> searches with Python's \<open>re\<close> module: the query goes through
  \<open>re.escape\<close> and the result is handed to \<open>re.finditer\<close>. Both are library
  functions, so the part of them the program can reach is written out here.
  A Python \<open>str\<close> is modelled as a \<open>string\<close>; an offset counts characters.
\<close>

definition backslash :: char where
  "backslash = CHR 0x5C"

definition newline :: char where
  "newline = CHR 0x0A"

text \<open>
  The characters \<open>re.escape\<close> protects (CPython 3.7 and later):
  \<^verbatim>\<open>()[]{}?*+-|^$\.&~#\<close>, the space, and tab, newline, carriage return,
  vertical tab, form feed.
\<close>

definition re_special_chars :: "char list" where
  "re_special_chars =
     ''()[]{}?*+-|^$'' @ [CHR 0x5C] @ ''.&~# '' @
     [CHR 0x09, CHR 0x0A, CHR 0x0D, CHR 0x0B, CHR 0x0C]"

text \<open>\<open>re.escape\<close>: a backslash in front of every special character, one character at a time.\<close>

fun re_escape :: "string \<Rightarrow> string" where
  "re_escape [] = []"
| "re_escape (c # cs) =
     (if c \<in> set re_special_chars then backslash # c # re_escape cs
      else c # re_escape cs)"

text \<open>
  A compiled pattern of the modelled fragment is a sequence of one-character atoms:
  a literal, or the wildcard \<open>.\<close> (any character but a newline, as no flag is given).
\<close>

datatype re_atom = Literal char | AnyChar

datatype re_error =
    BadEscape       \<comment> \<open>the pattern ends in a lone backslash\<close>
  | Unsupported     \<comment> \<open>pattern syntax outside the modelled fragment\<close>

definition ascii_alnum :: "char list" where
  "ascii_alnum =
     ''0123456789abcdefghijklmnopqrstuvwxyzABCDEFGHIJKLMNOPQRSTUVWXYZ''"

text \<open>
  The pattern parser. A backslash followed by a character that is not an ASCII letter or
  digit stands for that character; \<open>.\<close> is the wildcard; the other characters with a
  meaning in a pattern (\<^verbatim>\<open>[{()*+?^$|\<close>) and the letter and digit escapes are
  outside the fragment and reported as \<open>Unsupported\<close>; every other character is a
  literal.
\<close>

definition re_meta_chars :: "char list" where
  "re_meta_chars = ''[{()*+?^$|''"

fun re_parse :: "string \<Rightarrow> re_error + re_atom list" where
  "re_parse [] = Inr []"
| "re_parse (c # cs) =
     (if c = backslash then
        (case cs of
           [] \<Rightarrow> Inl BadEscape
         | d # ds \<Rightarrow>
             if d \<in> set ascii_alnum then Inl Unsupported
             else (case re_parse ds of
                     Inl e \<Rightarrow> Inl e
                   | Inr p \<Rightarrow> Inr (Literal d # p)))
      else if c \<in> set re_meta_chars then Inl Unsupported
      else (case re_parse cs of
              Inl e \<Rightarrow> Inl e
            | Inr p \<Rightarrow> Inr ((if c = CHR ''.'' then AnyChar else Literal c) # p)))"

fun atom_matches :: "re_atom \<Rightarrow> char \<Rightarrow> bool" where
  "atom_matches (Literal c) d = (c = d)"
| "atom_matches AnyChar d = (d \<noteq> newline)"

text \<open>
  Matching a compiled pattern at the start of a text: the length of the match, if there
  is one.
\<close>

fun match_here :: "re_atom list \<Rightarrow> string \<Rightarrow> nat option" where
  "match_here [] s = Some 0"
| "match_here (a # as) [] = None"
| "match_here (a # as) (d # ds) =
     (if atom_matches a d then map_option Suc (match_here as ds) else None)"

text \<open>
  The scan of \<open>finditer\<close>: from \<open>pos\<close>, try a match; after a match the scan resumes
  at the end of that match; after an empty match the next match at the same position
  must not be empty (\<open>must_advance\<close>), so the scan moves one character on. The scan
  ends once \<open>pos\<close> is beyond the end of the text. Each match is reported as its span
  \<open>(start, end)\<close>.
\<close>

function finditer_scan :: "re_atom list \<Rightarrow> string \<Rightarrow> nat \<Rightarrow> bool \<Rightarrow> (nat \<times> nat) list" where
  "finditer_scan p s pos must_advance =
     (if length s < pos then []
      else (case match_here p (drop pos s) of
              None \<Rightarrow> finditer_scan p s (Suc pos) False
            | Some n \<Rightarrow>
                if must_advance \<and> n = 0 then finditer_scan p s (Suc pos) False
                else (pos, pos + n) # finditer_scan p s (pos + n) (n = 0)))"
  by pat_completeness auto
termination
  by (relation "measures [\<lambda>(p, s, pos, ma). Suc (length s) - pos,
                          \<lambda>(p, s, pos, ma). if ma then 0 else 1]") auto

declare finditer_scan.simps [simp del]

definition re_finditer :: "string \<Rightarrow> string \<Rightarrow> re_error + (nat \<times> nat) list" where
  "re_finditer pattern text =
     (case re_parse pattern of
        Inl e \<Rightarrow> Inl e
      | Inr p \<Rightarrow> Inr (finditer_scan p text 0 False))"

section \<open>The content scanner\<close>

definition sanitize_search_term :: "string \<Rightarrow> string" where
  "sanitize_search_term term = re_escape term"

text \<open>
  \<open>find_matches\<close> collects \<open>m.start()\<close> of every match. An error of the pattern
  engine would be an exception of \<open>find_matches\<close>; it is the \<open>Inl\<close> branch.
\<close>

definition find_matches :: "string \<Rightarrow> string \<Rightarrow> re_error + nat list" where
  "find_matches content query =
     (let pattern = sanitize_search_term query
      in case re_finditer pattern content of
           Inl e \<Rightarrow> Inl e
         | Inr ms \<Rightarrow> Inr (map fst ms))"

section \<open>Exclusion rules\<close>

definition EXCLUDE_PATTERNS :: "string set" where
  "EXCLUDE_PATTERNS =
     {''node_modules'', ''.git'', ''dist'', ''build'', ''__pycache__'',
      ''.pytest_cache'', ''venv'', ''env'', ''backups''}"

definition BINARY_EXTENSIONS :: "string set" where
  "BINARY_EXTENSIONS =
     {''.zip'', ''.gz'', ''.tar'', ''.rar'', ''.7z'',
      ''.db'', ''.db.bak'', ''.sqlite'', ''.sqlite3'',
      ''.jpg'', ''.jpeg'', ''.png'', ''.gif'',
      ''.pyc'', ''.pyo'', ''.pyd'',
      ''.so'', ''.dll'', ''.dylib'',
      ''.exe'', ''.bin'',
      ''.bak'', ''.log''}"

section \<open>Path helpers of the standard library\<close>

text \<open>\<open>str.rfind\<close> for a single character: the index of its last occurrence.\<close>

fun rfind :: "char \<Rightarrow> string \<Rightarrow> nat option" where
  "rfind c [] = None"
| "rfind c (x # xs) =
     (case rfind c xs of
        Some i \<Rightarrow> Some (Suc i)
      | None \<Rightarrow> if x = c then Some 0 else None)"

text \<open>
  \<open>Path(file).suffix\<close> (pathlib of CPython 3.4 to 3.13): with \<open>i = name.rfind('.')\<close>,
  the suffix is \<open>name[i:]\<close> when \<open>0 < i < len(name) - 1\<close> and the empty string
  otherwise. \<open>file\<close> is an entry of a directory listing, so it is its own final
  component.
\<close>

definition path_suffix :: "string \<Rightarrow> string" where
  "path_suffix name =
     (case rfind (CHR ''.'') name of
        None \<Rightarrow> []
      | Some i \<Rightarrow> if 0 < i \<and> Suc i < length name then drop i name else [])"

text \<open>\<open>str.lower\<close> on the ASCII letters; every other character is left as it is.\<close>

definition lower_char :: "char \<Rightarrow> char" where
  "lower_char c =
     (case map_of (zip ''ABCDEFGHIJKLMNOPQRSTUVWXYZ'' ''abcdefghijklmnopqrstuvwxyz'') c of
        Some d \<Rightarrow> d
      | None \<Rightarrow> c)"

definition str_lower :: "string \<Rightarrow> string" where
  "str_lower s = map lower_char s"

text \<open>
  \<open>os.path.join\<close> of \<open>posixpath\<close> with two arguments: a second part that starts
  with the separator replaces the first; otherwise the parts are concatenated, with a
  separator between them unless the first is empty or already ends in one.
\<close>

definition os_path_join :: "string \<Rightarrow> string \<Rightarrow> string" where
  "os_path_join a b =
     (if take 1 b = ''/'' then b
      else if a = [] \<or> last a = CHR ''/'' then a @ b
      else a @ ''/'' @ b)"

section \<open>The file walker\<close>

text \<open>
  A directory as \<open>os.walk\<close> lists it: its subdirectories, by name, and the names of
  its files, both in listing order. A subdirectory that \<open>os.walk\<close> does not enter
  (a symbolic link, or a directory it cannot list) is a directory without entries here.
\<close>

datatype fs_tree = Dir "(string \<times> fs_tree) list" "string list"

text \<open>
  \<open>find_files\<close> drives \<open>os.walk\<close> top-down. At each directory it first rewrites
  \<open>dirs\<close> in place, keeping the names that are not in \<open>EXCLUDE_PATTERNS\<close>, then
  yields the joined path of every file whose lower-cased suffix is not in
  \<open>BINARY_EXTENSIONS\<close>; \<open>os.walk\<close> then descends into the directories left in
  \<open>dirs\<close>, in order, each with the joined path as its \<open>root\<close>. The generator is
  modelled by the list of the paths it yields.
\<close>

fun find_files :: "string \<Rightarrow> fs_tree \<Rightarrow> string list" where
  "find_files root (Dir dirs files) =
     (let dirs' = filter (\<lambda>e. fst e \<notin> EXCLUDE_PATTERNS) dirs
      in map (os_path_join root)
           (filter (\<lambda>file. str_lower (path_suffix file) \<notin> BINARY_EXTENSIONS) files)
         @ concat (map (\<lambda>e. find_files (os_path_join root (fst e)) (snd e)) dirs'))"

section \<open>The snippet formatter\<close>

text \<open>
  Python's slice \<open>xs[i:j]\<close> on integers: a negative bound counts from the end, and
  both bounds are clamped to the sequence; an empty or inverted range is the empty
  sequence.
\<close>

definition py_slice :: "'a list \<Rightarrow> int \<Rightarrow> int \<Rightarrow> 'a list" where
  "py_slice xs i j =
     (let n = int (length xs);
          lo = (if i < 0 then max 0 (i + n) else min i n);
          hi = (if j < 0 then max 0 (j + n) else min j n)
      in take (nat (hi - lo)) (drop (nat lo) xs))"

definition format_snippet :: "string \<Rightarrow> int \<Rightarrow> int \<Rightarrow> string" where
  "format_snippet content index context =
     (let start = max 0 (index - context);
          stop = min (int (length content)) (index + context)
      in ''...'' @ py_slice content start stop @ ''...'')"

section \<open>Scanning one file\<close>

datatype py_exception =
    OSError nat           \<comment> \<open>the file cannot be opened or read; the number is \<open>errno\<close>\<close>
  | UnicodeDecodeError    \<comment> \<open>the bytes of the file are not UTF-8\<close>
  | UnicodeEncodeError    \<comment> \<open>a text holds a character that standard output cannot encode\<close>
  | ReError re_error      \<comment> \<open>an error of the pattern engine\<close>

text \<open>
  What the program asks of its environment: \<open>read_text p\<close> is the outcome of opening
  \<open>p\<close> with \<open>encoding='utf-8'\<close> and reading it whole, \<open>relpath p\<close> is
  \<open>os.path.relpath(p)\<close> against the working directory, \<open>exc_str e\<close> is the
  text \<open>str(e)\<close> of an exception, and \<open>stdout_encodes c\<close> says whether the
  encoding of standard output has the character \<open>c\<close>. The characters below 128 are
  always written: the encodings Python uses for standard output extend ASCII. A file
  name that is not valid in the file system encoding reaches the program with characters
  that no encoding of standard output has.
\<close>

record world =
  read_text :: "string \<Rightarrow> py_exception + string"
  relpath :: "string \<Rightarrow> string"
  exc_str :: "py_exception \<Rightarrow> string"
  stdout_encodes :: "char \<Rightarrow> bool"

record file_match =
  path :: string
  snippets :: "string list"

text \<open>
  \<open>print(text)\<close>: the exception it raises, if any, and what it writes. Standard
  output is the list of the texts written, one element for each \<open>print\<close>. A text
  with a character that standard output cannot encode raises \<open>UnicodeEncodeError\<close>
  and nothing of it is written.
\<close>

definition printable :: "world \<Rightarrow> string \<Rightarrow> bool" where
  "printable w text = list_all (\<lambda>c. \<not> digit7 c \<or> stdout_encodes w c) text"

definition py_print :: "world \<Rightarrow> string \<Rightarrow> py_exception option \<times> string list" where
  "py_print w text =
     (if printable w text then (None, [text]) else (Some UnicodeEncodeError, []))"

text \<open>Several \<open>print\<close> statements in a row: the first that raises ends the sequence.\<close>

fun print_all :: "world \<Rightarrow> string list \<Rightarrow> py_exception option \<times> string list" where
  "print_all w [] = (None, [])"
| "print_all w (text # texts) =
     (case py_print w text of
        (Some x, printed) \<Rightarrow> (Some x, printed)
      | (None, printed) \<Rightarrow>
          (case print_all w texts of (r, rest) \<Rightarrow> (r, printed @ rest)))"

definition error_line :: "world \<Rightarrow> string \<Rightarrow> py_exception \<Rightarrow> string" where
  "error_line w p e = ''Error processing '' @ p @ '': '' @ exc_str w e"

text \<open>
  The handler \<open>except Exception as e\<close> of \<open>search_file\<close>: it prints one line and
  returns \<open>None\<close>. The \<open>print\<close> stands inside the handler, under no \<open>try\<close> of
  its own: when it raises, the exception leaves \<open>search_file\<close>.
\<close>

definition search_file_except ::
    "world \<Rightarrow> string \<Rightarrow> py_exception \<Rightarrow> (py_exception + file_match option) \<times> string list" where
  "search_file_except w p e =
     (case py_print w (error_line w p e) of
        (Some x, printed) \<Rightarrow> (Inl x, printed)
      | (None, printed) \<Rightarrow> (Inr None, printed))"

text \<open>
  The outcome of \<open>search_file\<close>, an exception that leaves it (\<open>Inl\<close>) or its
  result (\<open>Inr\<close>), together with the lines it prints. Every exception raised inside
  the \<open>try\<close> block is caught by the handler. A file without a match falls off the
  end of the function: \<open>None\<close>, nothing printed.
\<close>

definition search_file ::
    "world \<Rightarrow> string \<Rightarrow> string \<Rightarrow> (py_exception + file_match option) \<times> string list" where
  "search_file w p query =
     (case read_text w p of
        Inl e \<Rightarrow> search_file_except w p e
      | Inr content \<Rightarrow>
          (case find_matches content query of
             Inl e \<Rightarrow> search_file_except w p (ReError e)
           | Inr matches \<Rightarrow>
               if matches \<noteq> [] then
                 (Inr (Some \<lparr>path = relpath w p,
                             snippets = map (\<lambda>index. format_snippet content (int index) 50) matches\<rparr>),
                  [])
               else (Inr None, [])))"

section \<open>The coordinator\<close>

text \<open>The texts \<open>main\<close> prints for one result, in order.\<close>

definition report :: "file_match \<Rightarrow> string list" where
  "report result =
     [newline # ''Found in: '' @ path result]
     @ map (\<lambda>snippet. ''Context: '' @ snippet) (snippets result)
     @ [replicate 80 (CHR ''-'')]"

text \<open>
  The loop of \<open>main\<close> over the walked files. The state is \<open>results_found\<close> and
  the output so far; the outcome adds the exception that ended the loop, if one did.
  Nothing in \<open>main\<close> catches an exception: one that leaves \<open>search_file\<close> or a
  \<open>print\<close> ends the loop with the files after it unvisited.
\<close>

fun main_loop ::
    "world \<Rightarrow> string \<Rightarrow> string list \<Rightarrow> bool \<times> string list \<Rightarrow>
       py_exception option \<times> bool \<times> string list" where
  "main_loop w query [] (results_found, out) = (None, results_found, out)"
| "main_loop w query (file # files) (results_found, out) =
     (case search_file w file query of
        (Inl x, printed) \<Rightarrow> (Some x, results_found, out @ printed)
      | (Inr None, printed) \<Rightarrow> main_loop w query files (results_found, out @ printed)
      | (Inr (Some result), printed) \<Rightarrow>
          (case print_all w (report result) of
             (Some x, lines) \<Rightarrow> (Some x, True, out @ printed @ lines)
           | (None, lines) \<Rightarrow> main_loop w query files (True, out @ printed @ lines)))"

definition usage :: "string list" where
  "usage =
     [''Usage: python worm.py '' @ [CHR 0x27] @ ''<search_term>'' @ [CHR 0x27],
      ''Example: python worm.py '' @ [CHR 0x27] @ ''with open(path, '' @ [CHR 0x22]
        @ ''r'' @ [CHR 0x22] @ '') as f:'' @ [CHR 0x27]]"

text \<open>
  \<open>main\<close>, given the environment, the tree below the working directory and
  \<open>sys.argv\<close>: the exception that ended the run, if one did, and the output.
\<close>

definition main :: "world \<Rightarrow> fs_tree \<Rightarrow> string list \<Rightarrow> py_exception option \<times> string list" where
  "main w tree argv =
     (if length argv \<noteq> 2 then print_all w usage
      else
        (let query = argv ! 1
         in case py_print w (newline # ''Searching for: '' @ query @ [newline]) of
              (Some x, printed) \<Rightarrow> (Some x, printed)
            | (None, header) \<Rightarrow>
                (case main_loop w query (find_files ''.'' tree) (False, header) of
                   (Some x, results_found, out) \<Rightarrow> (Some x, out)
                 | (None, results_found, out) \<Rightarrow>
                     if \<not> results_found then
                       (case py_print w ''No matches found.'' of
                          (r, printed) \<Rightarrow> (r, out @ printed))
                     else (None, out))))"

section \<open>Notions the properties are stated with\<close>

text \<open>The query \<open>q\<close> occurs in \<open>s\<close> at offset \<open>i\<close>, character for character.\<close>

definition occurs_at :: "string \<Rightarrow> string \<Rightarrow> nat \<Rightarrow> bool" where
  "occurs_at q s i = (i + length q \<le> length s \<and> take (length q) (drop i s) = q)"

text \<open>
  Every file of a tree, pruned or not, as the chain of directory names that leads to it
  from the top and its own name; in the order of a top-down walk.
\<close>

fun all_files :: "fs_tree \<Rightarrow> (string list \<times> string) list" where
  "all_files (Dir dirs files) =
     map (\<lambda>f. ([], f)) files
     @ concat (map (\<lambda>e. map (\<lambda>df. (fst e # fst df, snd df)) (all_files (snd e))) dirs)"

text \<open>The path of such a file below \<open>root\<close>: one \<open>os.path.join\<close> for each step down.\<close>

definition path_of :: "string \<Rightarrow> string list \<times> string \<Rightarrow> string" where
  "path_of root df = os_path_join (foldl os_path_join root (fst df)) (snd df)"

text \<open>A file the walker is meant to keep: no excluded directory above it, no binary suffix.\<close>

definition eligible :: "string list \<times> string \<Rightarrow> bool" where
  "eligible df =
     (list_all (\<lambda>d. d \<notin> EXCLUDE_PATTERNS) (fst df) \<and>
      str_lower (path_suffix (snd df)) \<notin> BINARY_EXTENSIONS)"

text \<open>The components of a path: the pieces between the separators.\<close>

fun components :: "string \<Rightarrow> string list" where
  "components [] = [[]]"
| "components (c # cs) =
     (if c = CHR ''/'' then [] # components cs
      else (c # hd (components cs)) # tl (components cs))"

text \<open>The names of a directory listing are not empty and hold no separator.\<close>

definition entry_name :: "string \<Rightarrow> bool" where
  "entry_name n = (n \<noteq> [] \<and> CHR ''/'' \<notin> set n)"

text \<open>A root path that is not empty and does not end in a separator, such as \<open>.\<close>.\<close>

definition plain :: "string \<Rightarrow> bool" where
  "plain r = (r \<noteq> [] \<and> last r \<noteq> CHR ''/'')"

fun listed :: "fs_tree \<Rightarrow> bool" where
  "listed (Dir dirs files) =
     (list_all (\<lambda>e. entry_name (fst e) \<and> listed (snd e)) dirs \<and> list_all entry_name files)"


text \<open>
  What one file adds to the output of a run that goes on: the lines of
  \<open>search_file\<close>, then its report if it matched.
\<close>

definition file_output :: "world \<Rightarrow> string \<Rightarrow> string \<Rightarrow> string list" where
  "file_output w query file =
     (case search_file w file query of
        (Inr (Some result), printed) \<Rightarrow> printed @ report result
      | (Inr None, printed) \<Rightarrow> printed
      | (Inl x, printed) \<Rightarrow> printed)"

text \<open>The output of a run up to the end of the walk: the header, then each walked file's share.\<close>

definition walk_output :: "world \<Rightarrow> fs_tree \<Rightarrow> string \<Rightarrow> string list" where
  "walk_output w tree query =
     (newline # ''Searching for: '' @ query @ [newline])
     # concat (map (file_output w query) (find_files ''.'' tree))"

text \<open>
  A small concrete setting for the examples: \<open>./a/x.txt\<close> and
  \<open>./node_modules/y.txt\<close> both read \<open>hello world\<close>, \<open>./b.txt\<close> cannot be
  opened, the relative path of \<open>./name\<close> is \<open>name\<close>, and standard output
  encodes every character.
\<close>

definition demo_tree :: fs_tree where
  "demo_tree =
     Dir [(''a'', Dir [] [''x.txt'']), (''node_modules'', Dir [] [''y.txt''])] [''b.txt'']"

definition demo_world :: world where
  "demo_world =
     \<lparr>read_text = (\<lambda>p. if p = ''./b.txt'' then Inl (OSError 13) else Inr ''hello world''),
      relpath = drop 2,
      exc_str = (\<lambda>e. ''[Errno 13] Permission denied: '' @ [CHR 0x27] @ ''./b.txt'' @ [CHR 0x27]),
      stdout_encodes = (\<lambda>c. True)\<rparr>"

text \<open>
  A second setting: the working directory holds a file whose name ends in a character
  that standard output cannot encode (a byte \<open>0xE9\<close> left by another encoding) and
  whose bytes are not UTF-8, and after it \<open>x.txt\<close>, which reads \<open>hello world\<close>.
\<close>

definition legacy_name :: string where
  "legacy_name = ''caf'' @ [CHR 0xE9]"

definition legacy_tree :: fs_tree where
  "legacy_tree = Dir [] [legacy_name, ''x.txt'']"

definition legacy_world :: world where
  "legacy_world =
     \<lparr>read_text = (\<lambda>p. if p = ''./x.txt'' then Inr ''hello world'' else Inl UnicodeDecodeError),
      relpath = drop 2,
      exc_str = (\<lambda>e. ''invalid start byte''),
      stdout_encodes = (\<lambda>c. False)\<rparr>"

section \<open>Escaping makes every query a literal pattern\<close>

lemma special_not_alnum: "c \<in> set re_special_chars \<Longrightarrow> c \<notin> set ascii_alnum"
  by (auto simp: re_special_chars_def ascii_alnum_def)

lemma meta_special: "c \<in> set re_meta_chars \<Longrightarrow> c \<in> set re_special_chars"
  by (auto simp: re_special_chars_def re_meta_chars_def)

lemma dot_special: "CHR ''.'' \<in> set re_special_chars"
  by (simp add: re_special_chars_def)

lemma backslash_special: "backslash \<in> set re_special_chars"
  by (simp add: re_special_chars_def backslash_def)

lemma re_parse_escape: "re_parse (re_escape q) = Inr (map Literal q)"
proof (induction q)
  case Nil
  show ?case by simp
next
  case (Cons c q)
  show ?case
  proof (cases "c \<in> set re_special_chars")
    case True
    then show ?thesis using Cons special_not_alnum[of c] by simp
  next
    case False
    then have "c \<noteq> backslash" "c \<notin> set re_meta_chars" "c \<noteq> CHR ''.''"
      using backslash_special meta_special dot_special by auto
    with False Cons show ?thesis by simp
  qed
qed

lemma match_here_literal:
  "match_here (map Literal q) s = (if take (length q) s = q then Some (length q) else None)"
proof (induction q arbitrary: s)
  case Nil
  show ?case by simp
next
  case (Cons c q)
  show ?case by (cases s) (auto simp: Cons)
qed

lemma scan_literal_unfold:
  "finditer_scan (map Literal q) s pos ma =
     (if length s < pos then []
      else if take (length q) (drop pos s) = q then
        (if ma \<and> q = [] then finditer_scan (map Literal q) s (Suc pos) False
         else (pos, pos + length q) # finditer_scan (map Literal q) s (pos + length q) (q = []))
      else finditer_scan (map Literal q) s (Suc pos) False)"
  by (subst finditer_scan.simps) (simp add: match_here_literal)

lemma scan_beyond: "length s < pos \<Longrightarrow> finditer_scan p s pos ma = []"
  by (subst finditer_scan.simps) simp

lemma scan_sound:
  "(i, e) \<in> set (finditer_scan (map Literal q) s pos ma) \<Longrightarrow>
     pos \<le> i \<and> occurs_at q s i \<and> e = i + length q"
proof (induction "map Literal q" s pos ma rule: finditer_scan.induct)
  case (1 s pos ma)
  show ?case
  proof (cases "length s < pos")
    case True
    with "1.prems" show ?thesis by (simp add: scan_beyond)
  next
    case inb: False
    show ?thesis
    proof (cases "take (length q) (drop pos s) = q")
      case False
      then have m: "match_here (map Literal q) (drop pos s) = None"
        by (simp add: match_here_literal)
      from "1.prems" inb False
      have "(i, e) \<in> set (finditer_scan (map Literal q) s (Suc pos) False)"
        by (subst (asm) scan_literal_unfold) simp
      from "1.hyps"(1)[OF inb m this] show ?thesis by simp
    next
      case True
      then have m: "match_here (map Literal q) (drop pos s) = Some (length q)"
        by (simp add: match_here_literal)
      have len: "pos + length q \<le> length s"
      proof -
        have "length (take (length q) (drop pos s)) = length q" using True by simp
        then show ?thesis using inb by simp
      qed
      show ?thesis
      proof (cases "ma \<and> length q = 0")
        case skip: True
        from "1.prems" inb True skip
        have "(i, e) \<in> set (finditer_scan (map Literal q) s (Suc pos) False)"
          by (subst (asm) scan_literal_unfold) simp
        from "1.hyps"(2)[OF inb m skip this] show ?thesis by simp
      next
        case noskip: False
        from "1.prems" inb True noskip
        have "(i, e) = (pos, pos + length q) \<or>
              (i, e) \<in> set (finditer_scan (map Literal q) s (pos + length q) (length q = 0))"
          by (subst (asm) scan_literal_unfold) auto
        then show ?thesis
        proof
          assume "(i, e) = (pos, pos + length q)"
          then show ?thesis using True len by (simp add: occurs_at_def)
        next
          assume "(i, e) \<in> set (finditer_scan (map Literal q) s (pos + length q) (length q = 0))"
          from "1.hyps"(3)[OF inb m noskip this] show ?thesis by simp
        qed
      qed
    qed
  qed
qed

lemma literal_scan_induct [case_names step]:
  fixes q s :: string
  assumes step: "\<And>pos ma.
      (pos \<le> length s \<Longrightarrow> take (length q) (drop pos s) \<noteq> q \<Longrightarrow> P (Suc pos) False) \<Longrightarrow>
      (pos \<le> length s \<Longrightarrow> take (length q) (drop pos s) = q \<Longrightarrow> ma \<and> q = [] \<Longrightarrow>
         P (Suc pos) False) \<Longrightarrow>
      (pos \<le> length s \<Longrightarrow> take (length q) (drop pos s) = q \<Longrightarrow> \<not> (ma \<and> q = []) \<Longrightarrow>
         P (pos + length q) (q = [])) \<Longrightarrow>
      P pos ma"
  shows "P pos ma"
proof -
  have "p = map Literal q \<Longrightarrow> t = s \<Longrightarrow> P pos ma" for p t
  proof (induction p t pos ma rule: finditer_scan.induct)
    case (1 p t pos ma)
    note eqs = "1.prems"
    show ?case
    proof (rule step)
      assume "pos \<le> length s" "take (length q) (drop pos s) \<noteq> q"
      then show "P (Suc pos) False"
        using "1.IH"(1) eqs by (simp add: match_here_literal)
    next
      assume "pos \<le> length s" "take (length q) (drop pos s) = q" "ma \<and> q = []"
      then show "P (Suc pos) False"
        using "1.IH"(2)[of "length q"] eqs by (simp add: match_here_literal)
    next
      assume "pos \<le> length s" "take (length q) (drop pos s) = q" "\<not> (ma \<and> q = [])"
      then show "P (pos + length q) (q = [])"
        using "1.IH"(3)[of "length q"] eqs by (simp add: match_here_literal)
    qed
  qed
  then show ?thesis by simp
qed

lemma take_drop_len:
  assumes "take (length q) (drop pos s) = q" "pos \<le> length s"
  shows "pos + length q \<le> length s"
proof -
  have "length (take (length q) (drop pos s)) = length q" using assms(1) by simp
  then show ?thesis using assms(2) by simp
qed

lemma scan_gap:
  assumes "q \<noteq> []"
  shows "sorted_wrt (\<lambda>i j. i + length q \<le> j) (map fst (finditer_scan (map Literal q) s pos ma))"
proof (induction pos ma rule: literal_scan_induct[where s = s and q = q])
  case (step pos ma)
  show ?case
  proof (cases "length s < pos")
    case True
    then show ?thesis by (simp add: scan_beyond)
  next
    case inb: False
    show ?thesis
    proof (cases "take (length q) (drop pos s) = q")
      case False
      with inb step(1) show ?thesis
        by (subst scan_literal_unfold) simp
    next
      case True
      have later: "\<forall>x \<in> set (finditer_scan (map Literal q) s (pos + length q) False).
                     pos + length q \<le> fst x"
        using scan_sound[of _ _ q s "pos + length q" False] by auto
      from inb True assms step(3) later show ?thesis
        by (subst scan_literal_unfold) simp
    qed
  qed
qed

lemma scan_complete:
  assumes "q \<noteq> []"
  shows "pos \<le> j \<Longrightarrow> occurs_at q s j \<Longrightarrow>
         \<exists>i \<in> set (map fst (finditer_scan (map Literal q) s pos ma)). i \<le> j \<and> j < i + length q"
proof (induction pos ma rule: literal_scan_induct[where s = s and q = q])
  case (step pos ma)
  have jlen: "j + length q \<le> length s" and jocc: "take (length q) (drop j s) = q"
    using step.prems(2) by (simp_all add: occurs_at_def)
  have inb: "pos \<le> length s" using step.prems(1) jlen by simp
  show ?case
  proof (cases "take (length q) (drop pos s) = q")
    case False
    then have "pos \<noteq> j" using jocc by auto
    then have "Suc pos \<le> j" using step.prems(1) by simp
    from step(1)[OF inb False this step.prems(2)] inb False show ?thesis
      by (subst scan_literal_unfold) simp
  next
    case True
    show ?thesis
    proof (cases "j < pos + length q")
      case True
      with \<open>take (length q) (drop pos s) = q\<close> inb assms step.prems(1) show ?thesis
        by (subst scan_literal_unfold) simp
    next
      case False
      then have "pos + length q \<le> j" by simp
      from step(3)[OF inb True _ this step.prems(2)] assms
      have "\<exists>i\<in>set (map fst (finditer_scan (map Literal q) s (pos + length q) False)).
               i \<le> j \<and> j < i + length q" by simp
      with True inb assms show ?thesis
        by (subst scan_literal_unfold) auto
    qed
  qed
qed

lemma scan_empty:
  "finditer_scan [] s pos ma =
     map (\<lambda>i. (i, i)) [(if ma then Suc pos else pos)..<Suc (length s)]"
proof (induction pos ma rule: literal_scan_induct[where s = s and q = "[]"])
  case (step pos ma)
  show ?case
  proof (cases "length s < pos")
    case True
    then show ?thesis by (simp add: scan_beyond)
  next
    case inb: False
    show ?thesis
    proof (cases ma)
      case True
      with inb step(2) show ?thesis
        using scan_literal_unfold[of "[]" s pos ma] by simp
    next
      case False
      with inb step(3) have "finditer_scan [] s pos ma = (pos, pos) # map (\<lambda>i. (i, i)) [Suc pos..<Suc (length s)]"
        using scan_literal_unfold[of "[]" s pos ma] by simp
      with inb False show ?thesis by (simp add: upt_conv_Cons)
    qed
  qed
qed

section \<open>Properties of \<open>find_matches\<close>\<close>

lemma find_matches_scan:
  "find_matches content query = Inr (map fst (finditer_scan (map Literal query) content 0 False))"
  by (simp add: find_matches_def sanitize_search_term_def re_finditer_def re_parse_escape)

lemma find_matches_empty_query: "find_matches content [] = Inr [0..<Suc (length content)]"
proof -
  have "map fst (map (\<lambda>i. (i, i)) [0..<Suc (length content)]) = [0..<Suc (length content)]"
    by (simp add: o_def del: upt_Suc)
  then show ?thesis
    using scan_empty[of content 0 False] find_matches_scan[of content "[]"]
    by (simp del: upt_Suc)
qed

lemma sorted_wrt_gap_less:
  assumes "sorted_wrt (\<lambda>i j. i + n \<le> j) xs" "0 < n"
  shows "sorted_wrt (<) (xs :: nat list)"
  using assms(1) by (rule sorted_wrt_mono_rel[rotated]) (use assms(2) in auto)

lemma offsets_ascending:
  assumes "find_matches content query = Inr offs"
  shows "sorted_wrt (<) offs"
proof (cases "query = []")
  case True
  with assms have "offs = [0..<Suc (length content)]"
    by (simp add: find_matches_empty_query)
  then show ?thesis by (simp add: sorted_wrt_upt del: upt_Suc)
next
  case False
  from assms have "offs = map fst (finditer_scan (map Literal query) content 0 False)"
    by (simp add: find_matches_scan)
  with scan_gap[OF False, of content 0 False] False show ?thesis
    using sorted_wrt_gap_less[of "length query" offs] by simp
qed

lemma occurs_at_nth:
  assumes "occurs_at q s i" "k < length q"
  shows "s ! (i + k) = q ! k"
proof -
  from assms(1) have len: "i + length q \<le> length s" and eq: "take (length q) (drop i s) = q"
    by (simp_all add: occurs_at_def)
  have "q ! k = take (length q) (drop i s) ! k" using eq by simp
  also have "\<dots> = s ! (i + k)" using assms(2) len by simp
  finally show ?thesis by simp
qed

lemma a_dot_b_no_overlap:
  assumes "occurs_at ''a.b'' s i" "occurs_at ''a.b'' s j" "i \<le> j" "j < i + 3"
  shows "j = i"
proof -
  have i1: "s ! (i + 1) = CHR ''.''" using occurs_at_nth[OF assms(1), of 1] by simp
  have i2: "s ! (i + 2) = CHR ''b''" using occurs_at_nth[OF assms(1), of 2] by simp
  have j0: "s ! j = CHR ''a''" using occurs_at_nth[OF assms(2), of 0] by simp
  from assms(3,4) consider "j = i" | "j = i + 1" | "j = i + 2" by linarith
  then show ?thesis
  proof cases
    case 1 then show ?thesis .
  next
    case 2 with i1 j0 show ?thesis by simp
  next
    case 3 with i2 j0 show ?thesis by simp
  qed
qed

text \<open>
  Without the escaping the engine does read \<open>.\<close> as a wildcard: the raw pattern
  \<open>a.b\<close> matches \<open>aXb\<close> as well as \<open>a.b\<close>.
\<close>

lemma unescaped_dot_is_wildcard: "re_finditer ''a.b'' ''aXb a.b'' = Inr [(0, 3), (4, 7)]"
  by code_simp

text \<open>
  Claim C1 says that \<open>find_matches\<close> returns no offset for the empty query. The code
  does not: the escaped empty query is the empty pattern, which matches at every
  position. At content \<open>abc\<close> the result is \<open>[0, 1, 2, 3]\<close>.
\<close>

theorem empty_query_counterexample:
  "find_matches ''abc'' [] = Inr [0, 1, 2, 3] \<and> find_matches ''abc'' [] \<noteq> Inr []"
  by (simp add: find_matches_empty_query)

text \<open>
  Claim C1, as amended: for every content, \<open>find_matches\<close> with the empty query returns
  every offset from 0 up to and including the length of the content, in ascending
  order; that is one more offset than the content has characters.
\<close>

theorem empty_query_matches_everywhere:
  "find_matches content [] = Inr [0..<Suc (length content)] \<and>
   (\<exists>offs. find_matches content [] = Inr offs \<and> length offs = length content + 1)"
  by (simp add: find_matches_empty_query del: upt_Suc)

text \<open>
  Claim C2: the query is matched as a literal string. For every content and query the
  escaped query compiles to the sequence of the query's own characters as literals,
  \<open>find_matches\<close> raises no error, and every offset it returns is a place where the
  query occurs character for character. For the query \<open>a.b\<close> an offset is returned
  exactly when \<open>a.b\<close> occurs there; \<open>aXb\<close> gives no match for \<open>a.b\<close>,
  \<open>aXbYc\<close> gives none for \<open>a.b*c\<close>, and a content that holds \<open>a.b*c\<close>
  gives exactly its offset.
\<close>

theorem find_matches_literal:
  "(\<exists>offs. find_matches content query = Inr offs \<and>
            (\<forall>i \<in> set offs. occurs_at query content i)) \<and>
   re_parse (sanitize_search_term query) = Inr (map Literal query) \<and>
   (\<exists>offs. find_matches content ''a.b'' = Inr offs \<and>
            (\<forall>i. i \<in> set offs \<longleftrightarrow> occurs_at ''a.b'' content i)) \<and>
   find_matches ''aXb'' ''a.b'' = Inr [] \<and>
   find_matches ''aXbYc'' ''a.b*c'' = Inr [] \<and>
   find_matches ''aXbYc a.b*c'' ''a.b*c'' = Inr [6]"
proof -
  have sound: "\<forall>i \<in> set (map fst (finditer_scan (map Literal q) content 0 False)).
                 occurs_at q content i" for q
    using scan_sound[of _ _ q content 0 False] by auto
  have A: "\<exists>offs. find_matches content query = Inr offs \<and>
            (\<forall>i \<in> set offs. occurs_at query content i)"
    using find_matches_scan[of content query] sound[of query] by blast
  have B: "re_parse (sanitize_search_term query) = Inr (map Literal query)"
    by (simp add: sanitize_search_term_def re_parse_escape)
  let ?offs = "map fst (finditer_scan (map Literal ''a.b'') content 0 False)"
  have "i \<in> set ?offs \<longleftrightarrow> occurs_at ''a.b'' content i" for i
  proof
    assume "i \<in> set ?offs"
    then show "occurs_at ''a.b'' content i" using sound[of "''a.b''"] by blast
  next
    assume occ: "occurs_at ''a.b'' content i"
    have "\<exists>k \<in> set ?offs. k \<le> i \<and> i < k + length ''a.b''"
      by (rule scan_complete) (simp_all add: occ)
    then obtain k where k: "k \<in> set ?offs" "k \<le> i \<and> i < k + length ''a.b''"
      by blast
    from k(2) have b: "k \<le> i" "i < k + 3" by simp_all
    from k(1) have "occurs_at ''a.b'' content k" using sound[of "''a.b''"] by blast
    from a_dot_b_no_overlap[OF this occ b] k(1) show "i \<in> set ?offs" by simp
  qed
  then have C: "\<exists>offs. find_matches content ''a.b'' = Inr offs \<and>
            (\<forall>i. i \<in> set offs \<longleftrightarrow> occurs_at ''a.b'' content i)"
    using find_matches_scan[of content "''a.b''"] by blast
  have D: "find_matches ''aXb'' ''a.b'' = Inr []" by code_simp
  have E: "find_matches ''aXbYc'' ''a.b*c'' = Inr []" by code_simp
  have F: "find_matches ''aXbYc a.b*c'' ''a.b*c'' = Inr [6]" by code_simp
  from A B C D E F show ?thesis by blast
qed

theorem find_matches_literal_witness:
  "find_matches ''x a.b aXb'' ''a.b'' = Inr [2] \<and> occurs_at ''a.b'' ''x a.b aXb'' 2"
proof -
  have eq: "find_matches ''x a.b aXb'' ''a.b'' = Inr [2]" by code_simp
  from find_matches_literal[of "''x a.b aXb''" "''a.b''"]
  obtain offs where "find_matches ''x a.b aXb'' ''a.b'' = Inr offs"
    "\<forall>i \<in> set offs. occurs_at ''a.b'' ''x a.b aXb'' i" by blast
  with eq show ?thesis by simp
qed

lemma sorted_nth_le:
  assumes "sorted_wrt (<) (xs :: nat list)" "m \<le> k" "k < length xs"
  shows "xs ! m \<le> xs ! k"
proof (cases "m = k")
  case True
  then show ?thesis by simp
next
  case False
  with assms(2) have "m < k" by simp
  from sorted_wrt_nth_less[OF assms(1) this assms(3)] show ?thesis by simp
qed

lemma resume_least:
  assumes asc: "sorted_wrt (<) (offs :: nat list)"
    and compl: "\<forall>j. occurs_at q s j \<longrightarrow> (\<exists>i \<in> set offs. i \<le> j \<and> j < i + length q)"
    and k: "k < length offs"
    and occ: "occurs_at q s j"
    and resume: "k = 0 \<or> offs ! (k - 1) + length q \<le> j"
  shows "offs ! k \<le> j"
proof -
  from compl occ obtain i where i: "i \<in> set offs" "i \<le> j" "j < i + length q" by blast
  from i(1) obtain m where m: "m < length offs" "offs ! m = i" by (auto simp: in_set_conv_nth)
  have "k \<le> m"
  proof (rule ccontr)
    assume "\<not> k \<le> m"
    then have mk: "m \<le> k - 1" "k \<noteq> 0" by simp_all
    from k have "k - 1 < length offs" by simp
    from sorted_nth_le[OF asc mk(1) this] m(2) have "i \<le> offs ! (k - 1)" by simp
    moreover from resume mk(2) have "offs ! (k - 1) + length q \<le> j" by simp
    ultimately show False using i(3) by simp
  qed
  from sorted_nth_le[OF asc this m(1)] m(2) i(2) show ?thesis by simp
qed

text \<open>
  Claim C3: for a query that is not empty, \<open>find_matches\<close> returns offsets at which
  the query occurs; each next offset is at least the length of the query beyond the one
  before, so the list is strictly ascending and the matches do not overlap; no
  occurrence is missed except one that starts inside a reported match; and the scan
  resumes at the end of a match: the first offset is the first occurrence, and each later
  offset is the first occurrence at or after the end of the match before it. For
  \<open>aa\<close> in \<open>aaaa\<close> the result is \<open>[0, 2]\<close>.
\<close>

theorem find_matches_non_overlapping:
  assumes "query \<noteq> []"
  shows "(\<exists>offs. find_matches content query = Inr offs \<and>
           (\<forall>i \<in> set offs. occurs_at query content i) \<and>
           sorted_wrt (\<lambda>i j. i + length query \<le> j) offs \<and>
           sorted_wrt (<) offs \<and>
           (\<forall>j. occurs_at query content j \<longrightarrow>
                 (\<exists>i \<in> set offs. i \<le> j \<and> j < i + length query)) \<and>
           (\<forall>k j. k < length offs \<and> occurs_at query content j \<and>
                  (k = 0 \<or> offs ! (k - 1) + length query \<le> j) \<longrightarrow> offs ! k \<le> j)) \<and>
         find_matches ''aaaa'' ''aa'' = Inr [0, 2]"
proof -
  let ?offs = "map fst (finditer_scan (map Literal query) content 0 False)"
  have eq: "find_matches content query = Inr ?offs" by (rule find_matches_scan)
  have sound: "\<forall>i \<in> set ?offs. occurs_at query content i"
    using scan_sound[of _ _ query content 0 False] by auto
  have gap: "sorted_wrt (\<lambda>i j. i + length query \<le> j) ?offs"
    by (rule scan_gap[OF assms])
  have asc: "sorted_wrt (<) ?offs"
    by (rule offsets_ascending[OF eq])
  have compl: "\<forall>j. occurs_at query content j \<longrightarrow>
                 (\<exists>i \<in> set ?offs. i \<le> j \<and> j < i + length query)"
    using scan_complete[OF assms, of 0 _ content False] by simp
  have resume: "\<forall>k j. k < length ?offs \<and> occurs_at query content j \<and>
                  (k = 0 \<or> ?offs ! (k - 1) + length query \<le> j) \<longrightarrow> ?offs ! k \<le> j"
    using resume_least[OF asc compl] by blast
  have ex: "find_matches ''aaaa'' ''aa'' = Inr [0, 2]" by code_simp
  from eq sound gap asc compl resume ex show ?thesis by blast
qed

theorem find_matches_non_overlapping_witness:
  "''aa'' \<noteq> [] \<and> find_matches ''aaaa'' ''aa'' = Inr [0, 2] \<and>
   occurs_at ''aa'' ''aaaa'' 1 \<and> 1 \<notin> set [0, 2 :: nat]"
proof -
  have ne: "''aa'' \<noteq> []" by simp
  have occ: "occurs_at ''aa'' ''aaaa'' 1" by (simp add: occurs_at_def)
  from find_matches_non_overlapping[OF ne, of "''aaaa''"] occ show ?thesis by simp
qed

section \<open>Properties of \<open>format_snippet\<close>\<close>

lemma py_slice_nat:
  assumes "j \<le> length xs"
  shows "py_slice xs (int i) (int j) = take (j - i) (drop i xs)"
proof (cases "i \<le> length xs")
  case True
  with assms show ?thesis
    by (simp add: py_slice_def Let_def nat_diff_distrib' min_def)
next
  case False
  with assms show ?thesis
    by (simp add: py_slice_def Let_def min_def)
qed

text \<open>
  Claim C6: \<open>format_snippet\<close> returns \<open>...\<close>, the slice of the content from
  \<open>start = max(0, offset - context)\<close> to
  \<open>end = min(len(content), offset + context)\<close>, and \<open>...\<close> again, whatever the
  bounds. For a match offset and a context that are not negative the slice is the
  characters from \<open>start\<close> up to \<open>end\<close>. At offset 0 in a content no longer than the
  context (50 by default) the slice is the whole content.
\<close>

theorem format_snippet_window:
  "format_snippet content index context =
     ''...'' @ py_slice content (max 0 (index - context))
                (min (int (length content)) (index + context)) @ ''...'' \<and>
   format_snippet content (int off) (int ctx) =
     ''...'' @ take (min (length content) (off + ctx) - (off - ctx)) (drop (off - ctx) content) @ ''...'' \<and>
   (length content \<le> ctx \<longrightarrow> format_snippet content 0 (int ctx) = ''...'' @ content @ ''...'')"
proof -
  have A: "format_snippet content index context =
     ''...'' @ py_slice content (max 0 (index - context))
                (min (int (length content)) (index + context)) @ ''...''"
    by (simp add: format_snippet_def Let_def)
  have B: "format_snippet content (int off') (int ctx) =
     ''...'' @ take (min (length content) (off' + ctx) - (off' - ctx)) (drop (off' - ctx) content) @ ''...''"
    for off'
  proof -
    have start: "max 0 (int off' - int ctx) = int (off' - ctx)" by linarith
    have stop: "min (int (length content)) (int off' + int ctx) = int (min (length content) (off' + ctx))"
      by linarith
    have "py_slice content (int (off' - ctx)) (int (min (length content) (off' + ctx))) =
          take (min (length content) (off' + ctx) - (off' - ctx)) (drop (off' - ctx) content)"
      by (rule py_slice_nat) simp
    then show ?thesis
      unfolding format_snippet_def Let_def start stop by simp
  qed
  have C: "length content \<le> ctx \<longrightarrow> format_snippet content 0 (int ctx) = ''...'' @ content @ ''...''"
    using B[of 0] by simp
  from A B[of off] C show ?thesis by blast
qed

theorem format_snippet_window_witness:
  "length ''hello world'' \<le> (50::nat) \<and>
   format_snippet ''hello world'' 0 50 = ''...hello world...''"
proof -
  have "length ''hello world'' \<le> (50::nat) \<longrightarrow>
        format_snippet ''hello world'' 0 (int 50) = ''...'' @ ''hello world'' @ ''...''"
    using format_snippet_window[of "''hello world''" 0 0 0 50] by blast
  then show ?thesis by simp
qed

text \<open>
  Claim C10 says that an inverted range always gives the empty inner substring. With
  content \<open>abcdef\<close>, offset \<open>-10\<close> and context 8 the bounds are \<open>start = 0\<close> and
  \<open>end = -2\<close>: the range is inverted, and the slice \<open>content[0:-2]\<close> is
  \<open>abcd\<close>, since a negative bound of a slice counts from the end.
\<close>

theorem format_snippet_negative_end:
  "(0::int) \<le> 8 \<and>
   min (int (length ''abcdef'')) (- 10 + 8) < max 0 (- 10 - 8) \<and>
   format_snippet ''abcdef'' (- 10) 8 = ''...abcd...'' \<and>
   format_snippet ''abcdef'' (- 10) 8 \<noteq> ''......''"
  by (simp add: format_snippet_def py_slice_def)

text \<open>
  Claim C10, as amended: for every content, every integer offset and every context,
  \<open>format_snippet\<close> returns a string that begins and ends with \<open>...\<close>; and when the
  end bound \<open>offset + context\<close> is not negative (so for every offset from 0 on, also
  beyond the end of the content), an empty or inverted range gives the empty inner
  substring, the result being the two markers alone.
\<close>

theorem format_snippet_total:
  "take 3 (format_snippet content index context) = ''...'' \<and>
   drop (length (format_snippet content index context) - 3)
     (format_snippet content index context) = ''...'' \<and>
   (0 \<le> index + context \<and>
    min (int (length content)) (index + context) \<le> max 0 (index - context) \<longrightarrow>
      format_snippet content index context = ''......'')"
  by (auto simp: format_snippet_def py_slice_def Let_def)

theorem format_snippet_total_witness:
  "(0::int) \<le> 100 + 50 \<and>
   min (int (length ''hello world'')) (100 + 50) \<le> max 0 (100 - 50) \<and>
   format_snippet ''hello world'' 100 50 = ''......''"
  using format_snippet_total[of "''hello world''" 100 50] by simp

section \<open>Properties of the walker\<close>

text \<open>The pruned walk yields what filtering the full listing of the tree would yield, in the same order.\<close>

lemma eligible_Nil: "eligible ([], f) = (str_lower (path_suffix f) \<notin> BINARY_EXTENSIONS)"
  by (simp add: eligible_def)

lemma eligible_Cons: "eligible (d # ds, f) = (d \<notin> EXCLUDE_PATTERNS \<and> eligible (ds, f))"
  by (auto simp: eligible_def)

lemma path_of_Nil: "path_of root ([], f) = os_path_join root f"
  by (simp add: path_of_def)

lemma path_of_Cons: "path_of root (d # ds, f) = path_of (os_path_join root d) (ds, f)"
  by (simp add: path_of_def)

lemma walk_subdir:
  "map (path_of root) (filter eligible (map (\<lambda>df. (d # fst df, snd df)) xs)) =
     (if d \<in> EXCLUDE_PATTERNS then []
      else map (path_of (os_path_join root d)) (filter eligible xs))"
  by (induction xs) (auto simp: eligible_Cons path_of_Cons)

lemma find_files_filter:
  "find_files root t = map (path_of root) (filter eligible (all_files t))"
proof (induction root t rule: find_files.induct)
  case (1 root dirs files)
  have files: "map (os_path_join root)
                 (filter (\<lambda>file. str_lower (path_suffix file) \<notin> BINARY_EXTENSIONS) files) =
               map (path_of root) (filter eligible (map (\<lambda>f. ([], f)) files))"
    by (induction files) (simp_all add: eligible_Nil path_of_Nil)
  have sub: "concat (map (\<lambda>e. find_files (os_path_join root (fst e)) (snd e))
                 (filter (\<lambda>e. fst e \<notin> EXCLUDE_PATTERNS) ds)) =
             map (path_of root) (filter eligible
               (concat (map (\<lambda>e. map (\<lambda>df. (fst e # fst df, snd df)) (all_files (snd e))) ds)))"
    if "set ds \<subseteq> set dirs" for ds
    using that
  proof (induction ds)
    case Nil
    show ?case by simp
  next
    case (Cons e ds)
    from Cons.prems have e: "e \<in> set dirs" and ds: "set ds \<subseteq> set dirs" by auto
    show ?case
    proof (cases "fst e \<in> EXCLUDE_PATTERNS")
      case True
      then show ?thesis using Cons.IH[OF ds] by (simp add: walk_subdir)
    next
      case False
      with e have "e \<in> set (filter (\<lambda>e. fst e \<notin> EXCLUDE_PATTERNS) dirs)" by simp
      from "1.IH"[OF refl this] False Cons.IH[OF ds] show ?thesis
        by (simp add: walk_subdir)
    qed
  qed
  show ?case using files sub[of dirs] by simp
qed

lemma components_not_Nil: "components s \<noteq> []"
  by (cases s) simp_all

lemma components_sep: "components (a @ CHR ''/'' # b) = components a @ components b"
proof (induction a)
  case Nil
  show ?case by simp
next
  case (Cons c a)
  show ?case
  proof (cases "c = CHR ''/''")
    case True
    then show ?thesis using Cons by simp
  next
    case False
    then show ?thesis using Cons components_not_Nil[of a] by (cases "components a") simp_all
  qed
qed

lemma components_name: "CHR ''/'' \<notin> set n \<Longrightarrow> components n = [n]"
  by (induction n) auto

lemma join_plain:
  assumes "plain r" "entry_name n"
  shows "os_path_join r n = r @ CHR ''/'' # n" and "plain (os_path_join r n)"
proof -
  from assms(2) obtain c cs where n: "n = c # cs" "c \<noteq> CHR ''/''"
    by (cases n) (auto simp: entry_name_def)
  then show eq: "os_path_join r n = r @ CHR ''/'' # n"
    using assms(1) by (simp add: os_path_join_def plain_def)
  have "last n \<noteq> CHR ''/''" using assms(2) n last_in_set[of n] by (auto simp: entry_name_def)
  moreover have "last (r @ CHR ''/'' # n) = last n" using n by simp
  ultimately show "plain (os_path_join r n)" unfolding eq plain_def by simp
qed

lemma foldl_join_plain:
  assumes "plain r" "list_all entry_name ds"
  shows "plain (foldl os_path_join r ds) \<and>
         components (foldl os_path_join r ds) = components r @ ds"
  using assms
proof (induction ds arbitrary: r)
  case Nil
  then show ?case by simp
next
  case (Cons d ds)
  from Cons.prems have d: "entry_name d" and ds: "list_all entry_name ds" by simp_all
  have p: "plain (os_path_join r d)" by (rule join_plain(2)[OF Cons.prems(1) d])
  have c: "components (os_path_join r d) = components r @ [d]"
    using join_plain(1)[OF Cons.prems(1) d] d
    by (simp add: components_sep components_name entry_name_def)
  from Cons.IH[OF p ds] c show ?case by simp
qed

lemma components_path_of:
  assumes "plain r" "list_all entry_name ds" "entry_name f"
  shows "components (path_of r (ds, f)) = components r @ ds @ [f]"
proof -
  from foldl_join_plain[OF assms(1,2)]
  have p: "plain (foldl os_path_join r ds)"
    and c: "components (foldl os_path_join r ds) = components r @ ds" by simp_all
  show ?thesis
    using join_plain(1)[OF p assms(3)] c assms(3)
    by (simp add: path_of_def components_sep components_name entry_name_def)
qed

lemma listed_all_files:
  "listed t \<Longrightarrow> (ds, f) \<in> set (all_files t) \<Longrightarrow> list_all entry_name ds \<and> entry_name f"
proof (induction t arbitrary: ds f)
  case (Dir dirs files)
  from Dir.prems(2) consider
      (here) "ds = []" "f \<in> set files"
    | (below) e ds' where "e \<in> set dirs" "(ds', f) \<in> set (all_files (snd e))" "ds = fst e # ds'"
    by auto
  then show ?case
  proof cases
    case here
    with Dir.prems(1) show ?thesis by (simp add: list_all_iff)
  next
    case below
    from below(1) Dir.prems(1) have n: "entry_name (fst e)" and l: "listed (snd e)"
      by (simp_all add: list_all_iff)
    have "snd e \<in> Basic_BNFs.snds e" by (cases e) simp
    from Dir.IH[OF below(1) this l below(2)] n below(3) show ?thesis by simp
  qed
qed

lemma components_walked:
  assumes "listed t" "(ds, f) \<in> set (all_files t)"
  shows "components (path_of ''.'' (ds, f)) = ''.'' # ds @ [f]"
proof -
  have "plain ''.''" by (simp add: plain_def)
  from components_path_of[OF this] listed_all_files[OF assms] show ?thesis by simp
qed







lemma walked_entry:
  assumes "p \<in> set (find_files root t)"
  shows "\<exists>ds f. (ds, f) \<in> set (all_files t) \<and> p = path_of root (ds, f) \<and> eligible (ds, f)"
proof -
  from assms obtain df where df: "df \<in> set (all_files t)" "eligible df" "p = path_of root df"
    by (auto simp: find_files_filter)
  obtain ds f where "df = (ds, f)" by (cases df)
  with df show ?thesis by blast
qed





text \<open>
  Claim C5: excluded directories are pruned. The walk yields exactly the paths that
  filtering the full listing would yield; every yielded path is the path of a file of
  the tree with no excluded name among the directories that lead to it; and for a tree
  of proper entry names walked from \<open>.\<close>, no directory component of a yielded path
  is an excluded name, so no file below an excluded directory, at any depth, appears.
\<close>

theorem excluded_directories_pruned:
  "find_files root t = map (path_of root) (filter eligible (all_files t)) \<and>
   (\<forall>p \<in> set (find_files root t).
      \<exists>ds f. (ds, f) \<in> set (all_files t) \<and> p = path_of root (ds, f) \<and>
             list_all (\<lambda>d. d \<notin> EXCLUDE_PATTERNS) ds) \<and>
   (listed t \<longrightarrow>
      (\<forall>p \<in> set (find_files ''.'' t).
         \<forall>d \<in> set (butlast (components p)). d \<notin> EXCLUDE_PATTERNS))"
proof -
  have A: "\<exists>ds f. (ds, f) \<in> set (all_files t) \<and> p = path_of r (ds, f) \<and>
             list_all (\<lambda>d. d \<notin> EXCLUDE_PATTERNS) ds"
    if "p \<in> set (find_files r t)" for p r
    using walked_entry[OF that] by (auto simp: eligible_def)
  have B: "d \<notin> EXCLUDE_PATTERNS"
    if "listed t" "p \<in> set (find_files ''.'' t)" "d \<in> set (butlast (components p))" for p d
  proof -
    from A[OF that(2)] obtain ds f where
      e: "(ds, f) \<in> set (all_files t)" "p = path_of ''.'' (ds, f)"
         "list_all (\<lambda>d. d \<notin> EXCLUDE_PATTERNS) ds" by blast
    from components_walked[OF that(1) e(1)] e(2)
    have "butlast (components p) = ''.'' # ds" by (simp add: butlast_append)
    with that(3) have "d = ''.'' \<or> d \<in> set ds" by simp
    then show ?thesis
    proof
      assume "d = ''.''"
      then show ?thesis by (simp add: EXCLUDE_PATTERNS_def)
    next
      assume "d \<in> set ds"
      with e(3) show ?thesis by (simp add: list_all_iff)
    qed
  qed
  from find_files_filter[of root t] A[of _ root] B show ?thesis by blast
qed

theorem excluded_directories_pruned_witness:
  "listed demo_tree \<and>
   find_files ''.'' demo_tree = [''./b.txt'', ''./a/x.txt''] \<and>
   ''./node_modules/y.txt'' \<notin> set (find_files ''.'' demo_tree) \<and>
   components ''./a/x.txt'' = [''.'', ''a'', ''x.txt''] \<and>
   ''a'' \<notin> EXCLUDE_PATTERNS"
proof -
  have l: "listed demo_tree" by (simp add: demo_tree_def entry_name_def)
  have f: "find_files ''.'' demo_tree = [''./b.txt'', ''./a/x.txt'']" by code_simp
  have c: "components ''./a/x.txt'' = [''.'', ''a'', ''x.txt'']" by simp
  from excluded_directories_pruned[of "''.''" demo_tree] l
  have "\<forall>p \<in> set (find_files ''.'' demo_tree).
          \<forall>d \<in> set (butlast (components p)). d \<notin> EXCLUDE_PATTERNS" by blast
  then have "\<forall>d \<in> set (butlast (components ''./a/x.txt'')). d \<notin> EXCLUDE_PATTERNS"
    by (simp add: f)
  then have a: "''a'' \<notin> EXCLUDE_PATTERNS" by (simp add: c)
  from l f c a show ?thesis by simp
qed

end
